theory Spec2Isabelle
  imports Main "HOL-Library.Char_ord" "HOL-Library.List_Lexorder" "HOL-Library.AList"
begin

section \<open>Python values and failures\<close>

text \<open>
  The program is a Python 2 script (\<^verbatim>\<open>getConcertInfo.py\<close>). Every exception the modelled
  code can raise is a value of \<open>error\<close> (\<open>CursesError\<close> is \<^verbatim>\<open>curses.error\<close>); a function
  that can raise returns \<open>error + 'a\<close> with \<open>Inl\<close> for the exception.
\<close>

datatype error = IndexError | KeyError | ValueError | AttributeError | CursesError

definition ebind :: "error + 'a \<Rightarrow> ('a \<Rightarrow> error + 'b) \<Rightarrow> error + 'b" where
  "ebind r f = (case r of Inl e \<Rightarrow> Inl e | Inr x \<Rightarrow> f x)"

text \<open>
  \<open>py_index xs i\<close> is \<^verbatim>\<open>xs[i]\<close>: a negative index counts from the end, and an index
  outside the list raises IndexError. \<open>py_take k xs\<close> is the slice \<^verbatim>\<open>xs[:k]\<close>, which never
  raises: a negative \<open>k\<close> drops \<open>-k\<close> elements from the end.
\<close>

definition py_index :: "'a list \<Rightarrow> int \<Rightarrow> error + 'a" where
  "py_index xs i =
     (if 0 \<le> i \<and> i < int (length xs) then Inr (xs ! nat i)
      else if i < 0 \<and> - int (length xs) \<le> i then Inr (xs ! nat (int (length xs) + i))
      else Inl IndexError)"

definition py_take :: "int \<Rightarrow> 'a list \<Rightarrow> 'a list" where
  "py_take k xs = (if 0 \<le> k then take (nat k) xs else take (nat (int (length xs) + k)) xs)"

text \<open>
  \<^verbatim>\<open>int(n)\<close> is applied in \<^verbatim>\<open>getMonth\<close> to an integer (where it is the identity) or to a
  byte string. On a string it skips surrounding white space, reads an optional sign and
  then needs at least one decimal digit and nothing else; anything else raises ValueError.
  In this program the strings that reach it are components of a date token, so they
  consist of decimal digits only (possibly none).
\<close>

datatype pyval = PyInt int | PyStr string

definition is_space :: "char \<Rightarrow> bool" where
  "is_space c = (c \<in> set [CHR '' '', CHR 0x09, CHR 0x0A, CHR 0x0B, CHR 0x0C, CHR 0x0D])"

definition is_digit :: "char \<Rightarrow> bool" where
  "is_digit c = (c \<in> set ''0123456789'')"

definition digit_val :: "char \<Rightarrow> int" where
  "digit_val c = int (of_char c) - 48"

definition decimal :: "string \<Rightarrow> int" where
  "decimal ds = foldl (\<lambda>a c. 10 * a + digit_val c) 0 ds"

definition py_int_str :: "string \<Rightarrow> error + int" where
  "py_int_str s =
     (let t = dropWhile is_space s;
          neg = (case t of [] \<Rightarrow> False | c # _ \<Rightarrow> c = CHR ''-'');
          u = (case t of [] \<Rightarrow> [] | c # r \<Rightarrow> if c = CHR ''-'' \<or> c = CHR ''+'' then r else t);
          ds = takeWhile is_digit u;
          rest = dropWhile is_space (dropWhile is_digit u)
      in if ds = [] \<or> rest \<noteq> [] then Inl ValueError
         else Inr (if neg then - decimal ds else decimal ds))"

definition py_int :: "pyval \<Rightarrow> error + int" where
  "py_int v = (case v of PyInt n \<Rightarrow> Inr n | PyStr s \<Rightarrow> py_int_str s)"

section \<open>Month names\<close>

text \<open>
  \<^verbatim>\<open>getMonth(n)\<close> returns \<^verbatim>\<open>months[(int(n) - 1) % 12]\<close>. Python's \<^verbatim>\<open>%\<close> with a positive
  divisor has a non-negative result, as \<open>mod\<close> on \<open>int\<close> has. The list access is
  modelled with its bounds check.
\<close>

definition months :: "string list" where
  "months = [''January'', ''February'', ''March'', ''April'',
             ''May'', ''June'', ''July'', ''August'',
             ''September'', ''October'', ''November'', ''December'']"

definition getMonth :: "pyval \<Rightarrow> error + string" where
  "getMonth n = ebind (py_int n) (\<lambda>i. py_index months ((i - 1) mod 12))"

section \<open>Trimming names\<close>

text \<open>
  \<^verbatim>\<open>trimName(name, length)\<close>: when the name has more than \<open>length\<close> characters it becomes
  \<^verbatim>\<open>name[:length] + "..."\<close>, otherwise it is returned as it is.
\<close>

definition trimName :: "string \<Rightarrow> int \<Rightarrow> string" where
  "trimName name len =
     (if int (length name) > len then py_take len name @ ''...'' else name)"

section \<open>The extractor\<close>

subsection \<open>The five patterns\<close>

text \<open>
  The source searches each line with five regular expressions of one shape: a fixed
  literal that must stand right before the match (a look-behind) and a body.
  \<open>re_search lit body seen rest\<close> is \<^verbatim>\<open>re.search\<close> for such a pattern: it tries every
  position from left to right, the end of the line included, and returns the body's match
  at the first position where the text before it ends with \<open>lit\<close> and the body matches.
  \<open>seen\<close> is the text to the left of the position, \<open>rest\<close> the text from it on.
  The bodies:
  \<^item> \<^verbatim>\<open>[^<]+(?=<)\<close> (\<open>artist_body\<close>): the longest run of characters other than \<^verbatim>\<open><\<close>; it has
    to be non-empty and followed by a \<^verbatim>\<open><\<close> (a shorter run is followed by a character of
    the run, so backtracking finds nothing more);
  \<^item> \<^verbatim>\<open>[a-zA-Z]{3}(?=<)\<close> (\<open>day_body\<close>): three letters followed by \<^verbatim>\<open><\<close>;
  \<^item> \<^verbatim>\<open>[0-9\-]{10}\<close> (\<open>date_body\<close>): ten characters, each a digit or \<^verbatim>\<open>-\<close>;
  \<^item> \<^verbatim>\<open>[^<]*\<close> (\<open>cell_body\<close>): the longest run of characters other than \<^verbatim>\<open><\<close>, which may
    be empty.
\<close>

fun startswith :: "string \<Rightarrow> string \<Rightarrow> bool" where
  "startswith [] s = True"
| "startswith (p # ps) [] = False"
| "startswith (p # ps) (c # cs) = (p = c \<and> startswith ps cs)"

fun contains :: "string \<Rightarrow> string \<Rightarrow> bool" where
  "contains sub [] = (sub = [])"
| "contains sub (c # cs) = (startswith sub (c # cs) \<or> contains sub cs)"

definition lookbehind :: "string \<Rightarrow> string \<Rightarrow> bool" where
  "lookbehind lit seen =
     (length lit \<le> length seen \<and> drop (length seen - length lit) seen = lit)"

fun re_search :: "string \<Rightarrow> (string \<Rightarrow> string option) \<Rightarrow> string \<Rightarrow> string \<Rightarrow> string option" where
  "re_search lit body seen [] = (if lookbehind lit seen then body [] else None)"
| "re_search lit body seen (c # cs) =
     (case (if lookbehind lit seen then body (c # cs) else None) of
        Some m \<Rightarrow> Some m
      | None \<Rightarrow> re_search lit body (seen @ [c]) cs)"

definition not_lt :: "char \<Rightarrow> bool" where
  "not_lt c = (c \<noteq> CHR ''<'')"

definition is_alpha :: "char \<Rightarrow> bool" where
  "is_alpha c = (c \<in> set ''abcdefghijklmnopqrstuvwxyzABCDEFGHIJKLMNOPQRSTUVWXYZ'')"

definition is_date_char :: "char \<Rightarrow> bool" where
  "is_date_char c = (is_digit c \<or> c = CHR ''-'')"

definition artist_body :: "string \<Rightarrow> string option" where
  "artist_body s =
     (if takeWhile not_lt s \<noteq> [] \<and> dropWhile not_lt s \<noteq> [] then Some (takeWhile not_lt s)
      else None)"

definition day_body :: "string \<Rightarrow> string option" where
  "day_body s =
     (if 4 \<le> length s \<and> list_all is_alpha (take 3 s) \<and> s ! 3 = CHR ''<'' then Some (take 3 s)
      else None)"

definition date_body :: "string \<Rightarrow> string option" where
  "date_body s =
     (if 10 \<le> length s \<and> list_all is_date_char (take 10 s) then Some (take 10 s) else None)"

definition cell_body :: "string \<Rightarrow> string option" where
  "cell_body s = Some (takeWhile not_lt s)"

definition artist_re :: "string \<Rightarrow> string option" where
  "artist_re l = re_search ''<b>'' artist_body [] l"

definition day_re :: "string \<Rightarrow> string option" where
  "day_re l = re_search ''-1\">'' day_body [] l"

definition date_re :: "string \<Rightarrow> string option" where
  "date_re l = re_search ''0\">'' date_body [] l"

definition venue_re :: "string \<Rightarrow> string option" where
  "venue_re l = re_search ''2\">'' cell_body [] l"

definition cost_re :: "string \<Rightarrow> string option" where
  "cost_re l = re_search ''3\">'' cell_body [] l"

text \<open>\<^verbatim>\<open>.group()\<close> on the result of a search: a failed search is \<^verbatim>\<open>None\<close>, which has no such
  attribute.\<close>

definition group :: "string option \<Rightarrow> error + string" where
  "group m = (case m of None \<Rightarrow> Inl AttributeError | Some s \<Rightarrow> Inr s)"

subsection \<open>Concerts\<close>

text \<open>
  \<^verbatim>\<open>formatConcert\<close> packs six strings into a dictionary with the keys venue, year, month,
  date, day and cost; the model is a record with these fields. \<open>split_on\<close> is
  \<^verbatim>\<open>str.split\<close> with a one-character separator: it always returns at least one component.
  The list \<^verbatim>\<open>[venue, date[y], date[m], date[d], day, cost]\<close> is built from left to right, so
  index 2 is read first.
\<close>

record concert =
  venue :: string
  year :: string
  month :: string
  date :: string
  day :: string
  cost :: string

fun split_on :: "char \<Rightarrow> string \<Rightarrow> string list" where
  "split_on sep [] = [[]]"
| "split_on sep (c # cs) =
     (if c = sep then [] # split_on sep cs
      else (case split_on sep cs of [] \<Rightarrow> [[c]] | p # ps \<Rightarrow> (c # p) # ps))"

definition formatConcert :: "string \<Rightarrow> string \<Rightarrow> string \<Rightarrow> string \<Rightarrow> error + concert" where
  "formatConcert dy dt vn cs =
     (let parts = split_on CHR ''-'' dt in
      ebind (py_index parts 2) (\<lambda>y.
      ebind (py_index parts 0) (\<lambda>m.
      ebind (py_index parts 1) (\<lambda>d.
        Inr \<lparr>venue = vn, year = y, month = m, date = d, day = dy, cost = cs\<rparr>))))"

subsection \<open>The catalog\<close>

text \<open>
  \<^verbatim>\<open>concertList\<close> reads the page's lines (\<open>site_data\<close>; fetching them is outside the model),
  keeps the lines that contain \<^verbatim>\<open><td \<close> and runs the loop over them. The dictionary
  \<^verbatim>\<open>artists\<close> is an association list with distinct keys: \<open>map_of\<close> looks a name up and
  \<open>AList.update\<close> stores a value (in place for a known key, at the end for a new one).
  Its order is the order of first insertion; the program reads the keys only through
  \<^verbatim>\<open>sorted\<close>. \<open>parse_concert\<close> is the loop body's lines for one line whose artist pattern
  matched.
\<close>

type_synonym catalog = "(string \<times> concert list) list"

definition artist_tag :: string where
  "artist_tag = ''<td ''"

definition parse_concert :: "string \<Rightarrow> error + concert" where
  "parse_concert l =
     ebind (group (day_re l)) (\<lambda>dy.
     ebind (group (date_re l)) (\<lambda>dt.
     ebind (group (venue_re l)) (\<lambda>vn.
     ebind (group (cost_re l)) (\<lambda>cs.
       formatConcert dy dt vn cs))))"

definition dict_add :: "catalog \<Rightarrow> string \<Rightarrow> concert \<Rightarrow> catalog" where
  "dict_add artists name c =
     (case map_of artists name of
        None \<Rightarrow> AList.update name [c] artists
      | Some cs \<Rightarrow> AList.update name (cs @ [c]) artists)"

fun concert_loop :: "catalog \<Rightarrow> string list \<Rightarrow> error + catalog" where
  "concert_loop artists [] = Inr artists"
| "concert_loop artists (l # ls) =
     (case artist_re l of
        None \<Rightarrow> concert_loop artists ls
      | Some name \<Rightarrow>
          (case parse_concert l of
             Inl e \<Rightarrow> Inl e
           | Inr c \<Rightarrow> concert_loop (dict_add artists name c) ls))"

definition concertList :: "string list \<Rightarrow> error + catalog" where
  "concertList site_data = concert_loop [] (filter (contains artist_tag) site_data)"

text \<open>\<^verbatim>\<open>concerts[name]\<close>: a missing key raises KeyError.\<close>

definition dict_get :: "catalog \<Rightarrow> string \<Rightarrow> error + concert list" where
  "dict_get concerts name = (case map_of concerts name of None \<Rightarrow> Inl KeyError | Some cs \<Rightarrow> Inr cs)"

section \<open>The two windows\<close>

text \<open>
  The terminal is an abstract display surface. A curses window is modelled by what the
  renderers ask of it: the size it reports (\<^verbatim>\<open>getmaxyx\<close>) and, for a write
  \<^verbatim>\<open>win.addstr(y, x, text, attr)\<close>, whether curses takes the write or raises
  \<^verbatim>\<open>curses.error\<close> (\<open>win_accepts win y x text\<close>; the attribute plays no part in it).
  \<^verbatim>\<open>clear\<close>, \<^verbatim>\<open>border\<close> and \<^verbatim>\<open>refresh\<close> do not raise. A renderer's result is the list of
  the calls it makes on its window, in order; a renderer that raises returns the exception
  only.
\<close>

datatype attr = A_NORMAL | A_STANDOUT | A_UNDERLINE | A_BOLD

datatype draw = Clear | Border | Addstr int int string attr | Refresh

record window =
  win_getmaxyx :: "int \<times> int"
  win_accepts :: "int \<Rightarrow> int \<Rightarrow> string \<Rightarrow> bool"

definition addstr :: "window \<Rightarrow> int \<Rightarrow> int \<Rightarrow> string \<Rightarrow> attr \<Rightarrow> error + draw" where
  "addstr win y x s a = (if win_accepts win y x s then Inr (Addstr y x s a) else Inl CursesError)"

text \<open>
  What ncurses does with a text of printable ASCII characters in a window of \<open>H\<close> rows
  and \<open>W\<close> columns: the write has to start inside the window; the text runs on into the
  following rows at the right edge, and a text that reaches the lower right corner raises
  (after it is shown). The empty text needs the position only. \<open>ascii_window\<close> is a
  window with this behaviour that reports the size \<open>(H, W)\<close>. Control characters and
  bytes outside ASCII are shown in other ways, which this instance does not describe; it is
  used for concrete runs only, and every general property is stated for an arbitrary
  window.
\<close>

definition ascii_accepts :: "int \<Rightarrow> int \<Rightarrow> int \<Rightarrow> int \<Rightarrow> string \<Rightarrow> bool" where
  "ascii_accepts H W y x s =
     (0 \<le> y \<and> y < H \<and> 0 \<le> x \<and> x < W \<and> (s = [] \<or> y * W + x + int (length s) < H * W))"

definition ascii_window :: "int \<Rightarrow> int \<Rightarrow> window" where
  "ascii_window H W = \<lparr>win_getmaxyx = (H, W), win_accepts = ascii_accepts H W\<rparr>"

text \<open>
  \<^verbatim>\<open>populateListWin(win, names, offset, MID_Y, width)\<close>. After \<^verbatim>\<open>clear\<close> and \<^verbatim>\<open>border\<close> it
  reads \<^verbatim>\<open>names[offset]\<close>, writes the highlighted name and then runs over
  \<^verbatim>\<open>range(1, MID_Y - MARGIN)\<close> with \<^verbatim>\<open>MARGIN = 1\<close>, that is the rows \<open>[1..MID_Y - 2]\<close>.
\<close>

fun list_rows :: "window \<Rightarrow> string list \<Rightarrow> int \<Rightarrow> int \<Rightarrow> int \<Rightarrow> int list \<Rightarrow> error + draw list" where
  "list_rows win names offset MID_Y width [] = Inr []"
| "list_rows win names offset MID_Y width (row # rows) =
     ebind (if offset - row \<ge> 0
            then ebind (py_index names (offset - row)) (\<lambda>a.
                 ebind (addstr win (MID_Y - row) 1 (trimName a width) A_NORMAL) (\<lambda>d.
                   Inr [d]))
            else Inr []) (\<lambda>above.
     ebind (if offset + row < int (length names)
            then ebind (py_index names (offset + row)) (\<lambda>a.
                 ebind (addstr win (MID_Y + row) 1 (trimName a width) A_NORMAL) (\<lambda>d.
                   Inr [d]))
            else Inr []) (\<lambda>below.
     ebind (list_rows win names offset MID_Y width rows) (\<lambda>rest.
       Inr (above @ below @ rest))))"

definition populateListWin :: "window \<Rightarrow> string list \<Rightarrow> int \<Rightarrow> int \<Rightarrow> int \<Rightarrow> error + draw list" where
  "populateListWin win names offset MID_Y width =
     ebind (py_index names offset) (\<lambda>n.
     ebind (addstr win MID_Y (1 + 4) (trimName n (width - 7 - 4)) A_STANDOUT) (\<lambda>hl.
     ebind (list_rows win names offset MID_Y (width - 7) [1..MID_Y - 1 - 1]) (\<lambda>others.
       Inr ([Clear, Border, hl] @ others @ [Refresh]))))"

text \<open>
  \<^verbatim>\<open>populateInfoWin(win, concerts, name)\<close> with \<^verbatim>\<open>MARGIN = 4\<close>: the heading at
  \<^verbatim>\<open>(MARGIN / 2, MARGIN / 2)\<close>, then for each concert the date line is built (the month's
  name comes from \<^verbatim>\<open>getMonth(c["month"])\<close>, whose argument is a string here) and the three
  writes are made, the row starting at \<^verbatim>\<open>MARGIN\<close> and growing by 4. The first step that
  raises ends the rendering.
\<close>

fun info_rows :: "window \<Rightarrow> int \<Rightarrow> concert list \<Rightarrow> error + draw list" where
  "info_rows win row [] = Inr []"
| "info_rows win row (c # cs) =
     ebind (getMonth (PyStr (month c))) (\<lambda>mn.
     ebind (addstr win row 4 (venue c) A_BOLD) (\<lambda>d1.
     ebind (addstr win (row + 1) (4 * 2)
              (day c @ '' '' @ date c @ '' '' @ mn @ '' '' @ year c) A_NORMAL) (\<lambda>d2.
     ebind (addstr win (row + 2) (4 * 2) (cost c) A_NORMAL) (\<lambda>d3.
     ebind (info_rows win (row + 4) cs) (\<lambda>rest.
       Inr ([d1, d2, d3] @ rest))))))"

definition populateInfoWin :: "window \<Rightarrow> concert list \<Rightarrow> string \<Rightarrow> error + draw list" where
  "populateInfoWin win concerts name =
     ebind (addstr win (4 div 2) (4 div 2) name A_UNDERLINE) (\<lambda>h.
     ebind (info_rows win 4 concerts) (\<lambda>rows.
       Inr ([Clear, Border, h] @ rows @ [Refresh])))"

section \<open>The event loop\<close>

text \<open>
  Key codes are the integers \<^verbatim>\<open>screen.getch()\<close> returns: \<^verbatim>\<open>curses.KEY_UP\<close> is 259,
  \<^verbatim>\<open>curses.KEY_DOWN\<close> is 258, and \<open>py_ord\<close> is \<^verbatim>\<open>ord\<close>.
  \<open>handle_key n page offset c\<close> is the loop body after \<^verbatim>\<open>getch\<close> (the \<^verbatim>\<open>if\<close>/\<^verbatim>\<open>elif\<close> chain
  and the two safety resets), with \<open>n = len(artists)\<close> and
  \<open>page = SUB_Y - (2 * MARGIN)\<close>: \<open>Quit\<close> is the \<^verbatim>\<open>break\<close>, \<open>Running offset'\<close> the next
  iteration with the new offset.
\<close>

definition KEY_UP :: int where
  "KEY_UP = 259"

definition KEY_DOWN :: int where
  "KEY_DOWN = 258"

definition py_ord :: "char \<Rightarrow> int" where
  "py_ord c = int (of_char c)"

datatype loop_state = Running int | Quit

definition scroll :: "int \<Rightarrow> int \<Rightarrow> int \<Rightarrow> int \<Rightarrow> int" where
  "scroll n page offset c =
     (if (c = KEY_UP \<or> c = py_ord CHR ''k'') \<and> offset > 0 then offset - 1
      else if (c = KEY_DOWN \<or> c = py_ord CHR ''j'') \<and> offset < n then offset + 1
      else if c = py_ord CHR ''K'' \<and> offset > 0 then offset - page
      else if c = py_ord CHR ''J'' \<and> offset < n then offset + page
      else offset)"

definition safety_reset :: "int \<Rightarrow> int \<Rightarrow> int" where
  "safety_reset n offset =
     (let offset1 = (if offset > n - 1 then n - 1 else offset)
      in if offset1 < 0 then 0 else offset1)"

definition handle_key :: "int \<Rightarrow> int \<Rightarrow> int \<Rightarrow> int \<Rightarrow> loop_state" where
  "handle_key n page offset c =
     (if c = py_ord CHR ''q'' \<or> c = py_ord CHR ''Q'' then Quit
      else Running (safety_reset n (scroll n page offset c)))"

text \<open>
  One pass of the loop first renders both windows at the current offset
  (\<^verbatim>\<open>populateListWin\<close>, \<^verbatim>\<open>name = artists[offset]\<close>, \<^verbatim>\<open>concerts[name]\<close>,
  \<^verbatim>\<open>populateInfoWin\<close>), then reads a key. \<open>main_loop\<close> runs the loop on the list of keys
  that \<^verbatim>\<open>getch\<close> will return. Its result is the trace of the renderings, each the offset
  it was called at with what it drew or raised, and how the run ends: \<open>Exited\<close> after a
  quit key, \<open>Crashed e\<close> when a rendering raised \<open>e\<close>, \<open>Blocked\<close> when the keys are used
  up and \<^verbatim>\<open>getch\<close> waits.
\<close>

type_synonym frame = "draw list \<times> draw list"

datatype outcome = Exited | Crashed error | Blocked

definition render :: "catalog \<Rightarrow> string list \<Rightarrow> window \<Rightarrow> window \<Rightarrow> int \<Rightarrow> int \<Rightarrow> int
    \<Rightarrow> error + frame" where
  "render concerts artists LIST_WIN INFO_WIN offset LIST_MID SUB_X =
     ebind (populateListWin LIST_WIN artists offset LIST_MID SUB_X) (\<lambda>lw.
     ebind (py_index artists offset) (\<lambda>name.
     ebind (dict_get concerts name) (\<lambda>cs.
     ebind (populateInfoWin INFO_WIN cs name) (\<lambda>iw.
       Inr (lw, iw)))))"

fun main_loop :: "catalog \<Rightarrow> string list \<Rightarrow> window \<Rightarrow> window \<Rightarrow> int \<Rightarrow> int \<Rightarrow> int \<Rightarrow> int
    \<Rightarrow> int list \<Rightarrow> (int \<times> (error + frame)) list \<times> outcome" where
  "main_loop concerts artists LIST_WIN INFO_WIN SUB_Y SUB_X LIST_MID offset [] =
     (case render concerts artists LIST_WIN INFO_WIN offset LIST_MID SUB_X of
        Inl e \<Rightarrow> ([(offset, Inl e)], Crashed e)
      | Inr f \<Rightarrow> ([(offset, Inr f)], Blocked))"
| "main_loop concerts artists LIST_WIN INFO_WIN SUB_Y SUB_X LIST_MID offset (c # cs) =
     (case render concerts artists LIST_WIN INFO_WIN offset LIST_MID SUB_X of
        Inl e \<Rightarrow> ([(offset, Inl e)], Crashed e)
      | Inr f \<Rightarrow>
          (case handle_key (int (length artists)) (SUB_Y - 2 * 2) offset c of
             Quit \<Rightarrow> ([(offset, Inr f)], Exited)
           | Running offset' \<Rightarrow>
               (let r = main_loop concerts artists LIST_WIN INFO_WIN SUB_Y SUB_X LIST_MID
                          offset' cs
                in ((offset, Inr f) # fst r, snd r))))"

text \<open>
  \<^verbatim>\<open>main(screen)\<close> for a page \<open>site_data\<close>, the screen it is given and the keys pressed.
  Of the screen the model keeps the size it reports (\<open>getmaxyx\<close>) and the windows
  \<^verbatim>\<open>screen.subwin(nlines, ncols, begin_y, begin_x)\<close> returns (\<open>subwin\<close>). Both
  sub-windows are asked for with \<open>SUB_Y\<close> rows and \<open>SUB_X\<close> columns (\<^verbatim>\<open>/\<close> is Python 2's
  floor division), and \<open>LIST_MID\<close> is half the height the list window reports. The footer
  written on the main screen is left out. The sorted key list is
  \<^verbatim>\<open>list(sorted(concerts))\<close>: byte strings in lexicographic order. \<open>ascii_screen\<close> is a
  screen whose sub-windows are \<open>ascii_window\<close>s of the size asked for.
\<close>

record screen =
  getmaxyx :: "int \<times> int"
  subwin :: "int \<Rightarrow> int \<Rightarrow> int \<Rightarrow> int \<Rightarrow> window"

definition ascii_screen :: "int \<Rightarrow> int \<Rightarrow> screen" where
  "ascii_screen MAX_Y MAX_X =
     \<lparr>getmaxyx = (MAX_Y, MAX_X), subwin = (\<lambda>nlines ncols begin_y begin_x. ascii_window nlines ncols)\<rparr>"

definition main :: "string list \<Rightarrow> screen \<Rightarrow> int list
    \<Rightarrow> (int \<times> (error + frame)) list \<times> outcome" where
  "main site_data scr keys =
     (case concertList site_data of
        Inl e \<Rightarrow> ([], Crashed e)
      | Inr concerts \<Rightarrow>
          (let MAX_Y = fst (getmaxyx scr);
               MAX_X = snd (getmaxyx scr);
               SUB_Y = MAX_Y - 2 * 2;
               SUB_X = MAX_X div 2 - 2 * 2;
               LIST_WIN = subwin scr SUB_Y SUB_X 2 2;
               LIST_MID = fst (win_getmaxyx LIST_WIN) div 2;
               INFO_WIN = subwin scr SUB_Y SUB_X 2 (2 * 2 + SUB_X);
               artists = sort (map fst concerts)
           in main_loop concerts artists LIST_WIN INFO_WIN SUB_Y SUB_X LIST_MID 0 keys))"

section \<open>Reading results\<close>


text \<open>The sequence a catalog stores under a name; empty when the name is no key.\<close>

definition concerts_of :: "catalog \<Rightarrow> string \<Rightarrow> concert list" where
  "concerts_of artists name = (case map_of artists name of None \<Rightarrow> [] | Some cs \<Rightarrow> cs)"

section \<open>Well-formed date tokens\<close>

text \<open>
  The date pattern accepts any ten characters that are digits or \<^verbatim>\<open>-\<close>. The page writes
  dates as \<^verbatim>\<open>NN-NN-NNNN\<close>; \<open>date_form\<close> says that a token has this form: ten characters,
  \<^verbatim>\<open>-\<close> at the positions 2 and 5 and digits elsewhere. It is used only to state properties.
\<close>

definition date_form :: "string \<Rightarrow> bool" where
  "date_form dt =
     (length dt = 10 \<and> dt ! 2 = CHR ''-'' \<and> dt ! 5 = CHR ''-'' \<and>
      list_all is_digit (take 2 dt @ take 2 (drop 3 dt) @ drop 6 dt))"

section \<open>Properties of the month table\<close>

lemma length_months: "length months = 12"
  by (simp add: months_def)

lemma getMonth_PyInt: "getMonth (PyInt n) = Inr (months ! nat ((n - 1) mod 12))"
  by (simp add: getMonth_def py_int_def ebind_def py_index_def length_months)

lemma getMonth_via_py_int:
  "py_int v = Inr i \<Longrightarrow> getMonth v = Inr (months ! nat ((i - 1) mod 12))"
  by (simp add: getMonth_def ebind_def py_index_def length_months)

text \<open>
  C10. The month lookup is total on the integers: for every integer \<open>n\<close>, negative ones
  and 0 included, \<open>getMonth\<close> returns a name of the table and never raises, because the
  index \<open>(n - 1) mod 12\<close> lies in \<open>[0, 11]\<close>.
\<close>

theorem getMonth_total:
  "\<exists>name. getMonth (PyInt n) = Inr name \<and> name \<in> set months \<and>
     name = months ! nat ((n - 1) mod 12) \<and> 0 \<le> (n - 1) mod 12 \<and> (n - 1) mod 12 < 12"
proof -
  have "nat ((n - 1) mod 12) < length months"
    by (simp add: length_months)
  then have "months ! nat ((n - 1) mod 12) \<in> set months"
    by (rule nth_mem)
  then show ?thesis
    by (simp add: getMonth_PyInt)
qed

theorem getMonth_total_witness:
  "\<exists>name. getMonth (PyInt (- 5)) = Inr name \<and> name \<in> set months \<and>
     name = months ! nat ((- 5 - 1) mod 12) \<and> 0 \<le> (- 5 - 1 :: int) mod 12 \<and>
     (- 5 - 1 :: int) mod 12 < 12"
  by (rule getMonth_total [of "- 5"])

text \<open>
  C6. The month lookup has period 12: two arguments whose integer values differ by a
  multiple of 12 get the same name, be they integers or strings that \<^verbatim>\<open>int\<close> reads;
  13 and 1 both give January.
\<close>

theorem getMonth_periodic:
  "(py_int v = Inr m \<longrightarrow> py_int v' = Inr (m + 12 * k) \<longrightarrow> getMonth v' = getMonth v) \<and>
   getMonth (PyInt (m + 12 * k)) = getMonth (PyInt m) \<and>
   getMonth (PyInt 13) = Inr ''January'' \<and> getMonth (PyInt 1) = Inr ''January''"
proof -
  have per: "(m + 12 * k - 1) mod 12 = (m - 1) mod 12"
    by (metis add.commute mod_mult_self4 diff_add_eq)
  have "getMonth (PyInt 13) = Inr ''January''" "getMonth (PyInt 1) = Inr ''January''"
    by (simp_all add: getMonth_PyInt months_def)
  then show ?thesis
    by (simp add: getMonth_PyInt getMonth_via_py_int per)
qed

theorem getMonth_periodic_witness:
  "py_int (PyStr ''01'') = Inr 1 \<and> py_int (PyStr ''13'') = Inr (1 + 12 * 1) \<and>
   getMonth (PyStr ''13'') = getMonth (PyStr ''01'') \<and> getMonth (PyStr ''13'') = Inr ''January''"
proof -
  have a: "py_int (PyStr ''01'') = Inr 1"
    by (simp add: py_int_def py_int_str_def is_space_def is_digit_def decimal_def digit_val_def)
  have b: "py_int (PyStr ''13'') = Inr (1 + 12 * 1)"
    by (simp add: py_int_def py_int_str_def is_space_def is_digit_def decimal_def digit_val_def)
  have c: "getMonth (PyStr ''13'') = getMonth (PyStr ''01'')"
    using getMonth_periodic [of "PyStr ''01''" 1 "PyStr ''13''" 1] a b by blast
  have d: "getMonth (PyStr ''01'') = Inr ''January''"
    using getMonth_via_py_int [OF a] by (simp add: months_def)
  show ?thesis using a b c d by simp
qed

section \<open>Properties of trimming\<close>

text \<open>
  C3 as stated fails: a name longer than the width is cut to the width and the ellipsis
  is added after the cut, so the result is three characters longer than the width.
\<close>

theorem trimName_counterexample:
  "int (length ''abcdef'') > 3 \<and> trimName ''abcdef'' 3 = ''abc...'' \<and>
   int (length (trimName ''abcdef'' 3)) \<noteq> 3"
  by (simp add: trimName_def py_take_def)

text \<open>
  C3, amended. For every name strictly longer than the width, the trimmed string is the
  slice \<^verbatim>\<open>name[:width]\<close> followed by \<^verbatim>\<open>...\<close>; for a width that is not negative this is the
  first \<open>width\<close> characters of the name followed by \<^verbatim>\<open>...\<close>, of length \<open>width + 3\<close>.
\<close>

theorem trimName_long:
  "int (length name) > len \<Longrightarrow>
     trimName name len = py_take len name @ ''...'' \<and>
     (0 \<le> len \<longrightarrow> trimName name len = take (nat len) name @ ''...'' \<and>
                    int (length (trimName name len)) = len + 3)"
  by (auto simp: trimName_def py_take_def)

theorem trimName_long_witness:
  "int (length ''Radiohead'') > 5 \<and> trimName ''Radiohead'' 5 = ''Radio...'' \<and>
   int (length (trimName ''Radiohead'' 5)) = 5 + 3"
  using trimName_long [of 5 "''Radiohead''"] by (simp add: py_take_def)

section \<open>Properties of formatConcert\<close>

lemma length10:
  "length xs = 10 \<Longrightarrow> \<exists>a b c d e f g h i j. xs = [a, b, c, d, e, f, g, h, i, j]"
  by (auto simp: length_Suc_conv eval_nat_numeral)

lemma is_digit_not_dash: "is_digit c \<Longrightarrow> c \<noteq> CHR ''-''"
  by (auto simp: is_digit_def)

lemma split_on_date_form:
  "date_form dt \<Longrightarrow> split_on CHR ''-'' dt = [take 2 dt, take 2 (drop 3 dt), drop 6 dt]"
proof -
  assume df: "date_form dt"
  then obtain a b c d e f g h i j where dt: "dt = [a, b, c, d, e, f, g, h, i, j]"
    using length10 [of dt] by (auto simp: date_form_def)
  from df show ?thesis
    unfolding dt by (simp add: date_form_def is_digit_not_dash)
qed

text \<open>
  C5. A date token of the form \<^verbatim>\<open>NN-NN-NNNN\<close> splits at \<^verbatim>\<open>-\<close> into three components, and
  the record gets the month from component 0, the day of the month from component 1 and
  the year from component 2. Whenever \<^verbatim>\<open>formatConcert\<close> returns a record at all, these
  three fields are the components 0, 1 and 2 of the split.
\<close>

theorem formatConcert_positions:
  "(date_form dt \<longrightarrow>
      split_on CHR ''-'' dt = [take 2 dt, take 2 (drop 3 dt), drop 6 dt] \<and>
      formatConcert dy dt vn cs =
        Inr \<lparr>venue = vn, year = drop 6 dt, month = take 2 dt, date = take 2 (drop 3 dt),
             day = dy, cost = cs\<rparr>) \<and>
   (formatConcert dy dt vn cs = Inr c \<longrightarrow>
      month c = split_on CHR ''-'' dt ! 0 \<and> date c = split_on CHR ''-'' dt ! 1 \<and>
      year c = split_on CHR ''-'' dt ! 2 \<and> venue c = vn \<and> day c = dy \<and> cost c = cs)"
proof -
  have "formatConcert dy dt vn cs = Inr c \<Longrightarrow>
      month c = split_on CHR ''-'' dt ! 0 \<and> date c = split_on CHR ''-'' dt ! 1 \<and>
      year c = split_on CHR ''-'' dt ! 2 \<and> venue c = vn \<and> day c = dy \<and> cost c = cs"
    by (auto simp: formatConcert_def Let_def ebind_def py_index_def split: if_splits)
  moreover have "date_form dt \<Longrightarrow> formatConcert dy dt vn cs =
        Inr \<lparr>venue = vn, year = drop 6 dt, month = take 2 dt, date = take 2 (drop 3 dt),
             day = dy, cost = cs\<rparr>"
    by (simp add: formatConcert_def split_on_date_form ebind_def py_index_def)
  ultimately show ?thesis
    by (simp add: split_on_date_form)
qed

theorem formatConcert_positions_witness:
  "date_form ''01-15-2024'' \<and>
   split_on CHR ''-'' ''01-15-2024'' = [''01'', ''15'', ''2024''] \<and>
   formatConcert ''Mon'' ''01-15-2024'' ''Hall'' ''$10'' =
     Inr \<lparr>venue = ''Hall'', year = ''2024'', month = ''01'', date = ''15'', day = ''Mon'',
          cost = ''$10''\<rparr>"
proof -
  have df: "date_form ''01-15-2024''"
    by (simp add: date_form_def is_digit_def)
  show ?thesis
    using df formatConcert_positions [of "''01-15-2024''" "''Mon''" "''Hall''" "''$10''"]
    by simp
qed

section \<open>Properties of the navigation\<close>

lemma funpow_Suc_arg: "(f ^^ Suc k) x = (f ^^ k) (f x)"
  by (simp add: funpow_swap1)

lemma safety_reset_range: "1 \<le> n \<Longrightarrow> 0 \<le> safety_reset n x \<and> safety_reset n x < n"
  by (simp add: safety_reset_def Let_def)

lemma safety_reset_id: "0 \<le> x \<Longrightarrow> x < n \<Longrightarrow> safety_reset n x = x"
  by (simp add: safety_reset_def Let_def)

lemma handle_key_range:
  "1 \<le> n \<Longrightarrow> handle_key n page offset c = Running offset' \<Longrightarrow> 0 \<le> offset' \<and> offset' < n"
  by (auto simp: handle_key_def safety_reset_range split: if_splits)

lemma main_loop_trace_range:
  "1 \<le> int (length artists) \<Longrightarrow> 0 \<le> offset \<Longrightarrow> offset < int (length artists) \<Longrightarrow>
   x \<in> set (fst (main_loop concerts artists LIST_WIN INFO_WIN SUB_Y SUB_X LIST_MID offset keys)) \<Longrightarrow>
   0 \<le> fst x \<and> fst x < int (length artists)"
proof (induction keys arbitrary: offset)
  case Nil
  then show ?case by (auto split: sum.splits)
next
  case (Cons c cs)
  show ?case
  proof (cases "render concerts artists LIST_WIN INFO_WIN offset LIST_MID SUB_X")
    case (Inl e)
    with Cons.prems show ?thesis by auto
  next
    case (Inr f)
    show ?thesis
    proof (cases "handle_key (int (length artists)) (SUB_Y - 2 * 2) offset c")
      case Quit
      with Inr Cons.prems show ?thesis by auto
    next
      case (Running offset')
      then have r: "0 \<le> offset' \<and> offset' < int (length artists)"
        using handle_key_range Cons.prems(1) by blast
      from Cons.prems(4) Inr Running
      have "x = (offset, Inr f) \<or>
            x \<in> set (fst (main_loop concerts artists LIST_WIN INFO_WIN SUB_Y SUB_X LIST_MID offset' cs))"
        by (simp add: Let_def)
      then show ?thesis
        using Cons.IH [of offset'] r Cons.prems(1,2,3) by auto
    qed
  qed
qed

lemma up_in_range:
  "c = KEY_UP \<or> c = py_ord CHR ''k'' \<Longrightarrow> 0 \<le> x \<Longrightarrow> x < n \<Longrightarrow>
   safety_reset n (scroll n page x c) = (if 0 < x then x - 1 else 0)"
  by (auto simp: safety_reset_def scroll_def Let_def KEY_UP_def KEY_DOWN_def py_ord_def)

lemma down_in_range:
  "c = KEY_DOWN \<or> c = py_ord CHR ''j'' \<Longrightarrow> 0 \<le> x \<Longrightarrow> x < n \<Longrightarrow>
   safety_reset n (scroll n page x c) = (if x + 1 < n then x + 1 else n - 1)"
  by (auto simp: safety_reset_def scroll_def Let_def KEY_UP_def KEY_DOWN_def py_ord_def)

lemma up_iter:
  "c = KEY_UP \<or> c = py_ord CHR ''k'' \<Longrightarrow> 0 \<le> x \<Longrightarrow> x < n \<Longrightarrow>
   ((\<lambda>offset. safety_reset n (scroll n page offset c)) ^^ k) x = (if int k < x then x - int k else 0)"
proof (induction k arbitrary: x)
  case 0
  then show ?case by simp
next
  case (Suc k)
  have "((\<lambda>offset. safety_reset n (scroll n page offset c)) ^^ Suc k) x =
        ((\<lambda>offset. safety_reset n (scroll n page offset c)) ^^ k) (safety_reset n (scroll n page x c))"
    by (rule funpow_Suc_arg)
  also have "\<dots> = ((\<lambda>offset. safety_reset n (scroll n page offset c)) ^^ k) (if 0 < x then x - 1 else 0)"
    using Suc.prems by (simp only: up_in_range)
  also have "\<dots> = (if int (Suc k) < x then x - int (Suc k) else 0)"
    using Suc.IH [of "if 0 < x then x - 1 else 0"] Suc.prems by auto
  finally show ?case .
qed

lemma down_iter:
  "c = KEY_DOWN \<or> c = py_ord CHR ''j'' \<Longrightarrow> 0 \<le> x \<Longrightarrow> x < n \<Longrightarrow>
   ((\<lambda>offset. safety_reset n (scroll n page offset c)) ^^ k) x = (if x + int k < n then x + int k else n - 1)"
proof (induction k arbitrary: x)
  case 0
  then show ?case by simp
next
  case (Suc k)
  have "((\<lambda>offset. safety_reset n (scroll n page offset c)) ^^ Suc k) x =
        ((\<lambda>offset. safety_reset n (scroll n page offset c)) ^^ k) (safety_reset n (scroll n page x c))"
    by (rule funpow_Suc_arg)
  also have "\<dots> = ((\<lambda>offset. safety_reset n (scroll n page offset c)) ^^ k) (if x + 1 < n then x + 1 else n - 1)"
    using Suc.prems by (simp only: down_in_range)
  also have "\<dots> = (if x + int (Suc k) < n then x + int (Suc k) else n - 1)"
    using Suc.IH [of "if x + 1 < n then x + 1 else n - 1"] Suc.prems by auto
  finally show ?case .
qed

lemma up_converges:
  assumes c: "c = KEY_UP \<or> c = py_ord CHR ''k''" and n: "1 \<le> n" and k: "nat n \<le> k"
  shows "((\<lambda>offset. safety_reset n (scroll n page offset c)) ^^ k) start = 0"
proof -
  obtain k' where k': "k = Suc k'" using n k by (cases k) auto
  let ?f = "\<lambda>offset. safety_reset n (scroll n page offset c)"
  have r: "0 \<le> ?f start \<and> ?f start < n" using n by (rule safety_reset_range)
  have "(?f ^^ k) start = (?f ^^ k') (?f start)"
    unfolding k' by (rule funpow_Suc_arg)
  also have "\<dots> = (if int k' < ?f start then ?f start - int k' else 0)"
    using up_iter [OF c, where x = "?f start" and n = n and page = page and k = k'] r by blast
  also have "\<dots> = 0" using r k k' by auto
  finally show ?thesis .
qed

lemma down_converges:
  assumes c: "c = KEY_DOWN \<or> c = py_ord CHR ''j''" and n: "1 \<le> n" and k: "nat n \<le> k"
  shows "((\<lambda>offset. safety_reset n (scroll n page offset c)) ^^ k) start = n - 1"
proof -
  obtain k' where k': "k = Suc k'" using n k by (cases k) auto
  let ?f = "\<lambda>offset. safety_reset n (scroll n page offset c)"
  have r: "0 \<le> ?f start \<and> ?f start < n" using n by (rule safety_reset_range)
  have "(?f ^^ k) start = (?f ^^ k') (?f start)"
    unfolding k' by (rule funpow_Suc_arg)
  also have "\<dots> = (if ?f start + int k' < n then ?f start + int k' else n - 1)"
    using down_iter [OF c, where x = "?f start" and n = n and page = page and k = k'] r by blast
  also have "\<dots> = n - 1" using r k k' by auto
  finally show ?thesis .
qed


lemma handle_key_not_quit:
  "c \<noteq> py_ord CHR ''q'' \<Longrightarrow> c \<noteq> py_ord CHR ''Q'' \<Longrightarrow>
   handle_key n page offset c = Running (safety_reset n (scroll n page offset c))"
  by (simp add: handle_key_def)

lemma up_keys_not_quit: "c = KEY_UP \<or> c = py_ord CHR ''k'' \<Longrightarrow> c \<noteq> py_ord CHR ''q'' \<and> c \<noteq> py_ord CHR ''Q''"
  by (auto simp: KEY_UP_def py_ord_def)

lemma down_keys_not_quit: "c = KEY_DOWN \<or> c = py_ord CHR ''j'' \<Longrightarrow> c \<noteq> py_ord CHR ''q'' \<and> c \<noteq> py_ord CHR ''Q''"
  by (auto simp: KEY_DOWN_def py_ord_def)

text \<open>
  C1. With at least one artist, every rendering of the event loop happens at an offset in
  \<open>[0, n - 1]\<close>, whatever keys are pressed and even when a rendering raises. Moving up
  at offset 0 stays at 0 and moving down at \<open>n - 1\<close> stays at \<open>n - 1\<close>: nothing wraps
  around. From any starting integer, \<open>n\<close> or more presses of an up key end at 0 and stay
  there, and \<open>n\<close> or more presses of a down key end at \<open>n - 1\<close>.
\<close>

theorem offset_in_range:
  assumes ne: "artists \<noteq> []"
  shows "(\<forall>x\<in>set (fst (main_loop concerts artists LIST_WIN INFO_WIN SUB_Y SUB_X LIST_MID 0 keys)).
            0 \<le> fst x \<and> fst x \<le> int (length artists) - 1) \<and>
         (c = KEY_UP \<or> c = py_ord CHR ''k'' \<longrightarrow>
            handle_key (int (length artists)) page 0 c = Running 0 \<and>
            (\<forall>k\<ge>length artists.
               ((\<lambda>offset. safety_reset (int (length artists)) (scroll (int (length artists)) page offset c)) ^^ k) start = 0)) \<and>
         (c = KEY_DOWN \<or> c = py_ord CHR ''j'' \<longrightarrow>
            handle_key (int (length artists)) page (int (length artists) - 1) c = Running (int (length artists) - 1) \<and>
            (\<forall>k\<ge>length artists.
               ((\<lambda>offset. safety_reset (int (length artists)) (scroll (int (length artists)) page offset c)) ^^ k) start
                 = int (length artists) - 1))"
proof -
  let ?n = "int (length artists)"
  have n: "1 \<le> ?n" using ne by (cases artists) auto
  have trace: "\<forall>x\<in>set (fst (main_loop concerts artists LIST_WIN INFO_WIN SUB_Y SUB_X LIST_MID 0 keys)).
            0 \<le> fst x \<and> fst x \<le> ?n - 1"
  proof
    fix x assume "x \<in> set (fst (main_loop concerts artists LIST_WIN INFO_WIN SUB_Y SUB_X LIST_MID 0 keys))"
    then have "0 \<le> fst x \<and> fst x < ?n"
      using main_loop_trace_range [of artists 0 x concerts LIST_WIN INFO_WIN SUB_Y SUB_X LIST_MID keys] n ne by simp
    then show "0 \<le> fst x \<and> fst x \<le> ?n - 1" by simp
  qed
  have up: "handle_key ?n page 0 c = Running 0 \<and>
            (\<forall>k\<ge>length artists. ((\<lambda>offset. safety_reset ?n (scroll ?n page offset c)) ^^ k) start = 0)"
    if c: "c = KEY_UP \<or> c = py_ord CHR ''k''"
  proof -
    have "handle_key ?n page 0 c = Running (safety_reset ?n (scroll ?n page 0 c))"
      using up_keys_not_quit [OF c] by (simp add: handle_key_not_quit)
    also have "safety_reset ?n (scroll ?n page 0 c) = 0"
      using up_in_range [OF c, of 0 ?n page] n ne by simp
    finally have "handle_key ?n page 0 c = Running 0" .
    moreover have "((\<lambda>offset. safety_reset ?n (scroll ?n page offset c)) ^^ k) start = 0"
      if "length artists \<le> k" for k
      using up_converges [OF c n, of k page start] that ne by simp
    ultimately show ?thesis by blast
  qed
  have down: "handle_key ?n page (?n - 1) c = Running (?n - 1) \<and>
            (\<forall>k\<ge>length artists. ((\<lambda>offset. safety_reset ?n (scroll ?n page offset c)) ^^ k) start = ?n - 1)"
    if c: "c = KEY_DOWN \<or> c = py_ord CHR ''j''"
  proof -
    have "handle_key ?n page (?n - 1) c = Running (safety_reset ?n (scroll ?n page (?n - 1) c))"
      using down_keys_not_quit [OF c] by (simp add: handle_key_not_quit)
    also have "safety_reset ?n (scroll ?n page (?n - 1) c) = ?n - 1"
      using down_in_range [OF c, of "?n - 1" ?n page] n ne by simp
    finally have "handle_key ?n page (?n - 1) c = Running (?n - 1)" .
    moreover have "((\<lambda>offset. safety_reset ?n (scroll ?n page offset c)) ^^ k) start = ?n - 1"
      if "length artists \<le> k" for k
      using down_converges [OF c n, of k page start] that ne by simp
    ultimately show ?thesis by blast
  qed
  from trace up down show ?thesis by blast
qed

theorem offset_in_range_witness:
  "[''A'', ''B''] \<noteq> [] \<and>
   fst ` set (fst (main_loop [(''A'', []), (''B'', [])] [''A'', ''B''] (ascii_window 20 36) (ascii_window 20 36) 20 36 10 0 [258, 258, 107])) \<subseteq> {0..1} \<and>
   handle_key 2 16 0 KEY_UP = Running 0 \<and>
   ((\<lambda>offset. safety_reset 2 (scroll 2 16 offset KEY_UP)) ^^ 2) 7 = 0 \<and>
   handle_key 2 16 1 KEY_DOWN = Running 1 \<and>
   ((\<lambda>offset. safety_reset 2 (scroll 2 16 offset KEY_DOWN)) ^^ 2) (- 3) = 1"
proof -
  have ne: "[''A'', ''B''] \<noteq> []" by simp
  have a: "fst ` set (fst (main_loop [(''A'', []), (''B'', [])] [''A'', ''B''] (ascii_window 20 36) (ascii_window 20 36) 20 36 10 0 [258, 258, 107])) \<subseteq> {0..1}"
    using offset_in_range [OF ne, of "[(''A'', []), (''B'', [])]" "ascii_window 20 36" "ascii_window 20 36" 20 36 10 "[258, 258, 107]" KEY_UP 16 7]
    by auto
  have b: "handle_key 2 16 0 KEY_UP = Running 0 \<and>
       ((\<lambda>offset. safety_reset 2 (scroll 2 16 offset KEY_UP)) ^^ 2) 7 = 0"
    using offset_in_range [OF ne, of "[(''A'', []), (''B'', [])]" "ascii_window 20 36" "ascii_window 20 36" 20 36 10 "[258, 258, 107]" KEY_UP 16 7]
    by simp
  have c: "handle_key 2 16 1 KEY_DOWN = Running 1 \<and>
       ((\<lambda>offset. safety_reset 2 (scroll 2 16 offset KEY_DOWN)) ^^ 2) (- 3) = 1"
    using offset_in_range [OF ne, of "[(''A'', []), (''B'', [])]" "ascii_window 20 36" "ascii_window 20 36" 20 36 10 "[258, 258, 107]" KEY_DOWN 16 "- 3"]
    by simp
  show ?thesis using ne a b c by blast
qed

section \<open>The event loop as a state machine\<close>

lemma main_loop_exit_needs_quit:
  "snd (main_loop concerts artists LIST_WIN INFO_WIN SUB_Y SUB_X LIST_MID offset keys) = Exited \<Longrightarrow>
   \<exists>c\<in>set keys. c = py_ord CHR ''q'' \<or> c = py_ord CHR ''Q''"
proof (induction keys arbitrary: offset)
  case Nil
  then show ?case by (auto split: sum.splits)
next
  case (Cons c cs)
  show ?case
  proof (cases "c = py_ord CHR ''q'' \<or> c = py_ord CHR ''Q''")
    case True
    then show ?thesis by auto
  next
    case False
    then have hk: "handle_key (int (length artists)) (SUB_Y - 2 * 2) offset c =
        Running (safety_reset (int (length artists))
                   (scroll (int (length artists)) (SUB_Y - 2 * 2) offset c))"
      by (simp add: handle_key_not_quit)
    from Cons.prems hk have
      "snd (main_loop concerts artists LIST_WIN INFO_WIN SUB_Y SUB_X LIST_MID
              (safety_reset (int (length artists))
                 (scroll (int (length artists)) (SUB_Y - 2 * 2) offset c)) cs) = Exited"
      by (auto simp: Let_def split: sum.splits)
    then show ?thesis using Cons.IH by auto
  qed
qed

lemma scroll_other:
  "c \<notin> {KEY_UP, py_ord CHR ''k'', KEY_DOWN, py_ord CHR ''j'', py_ord CHR ''K'', py_ord CHR ''J''} \<Longrightarrow>
   scroll n page offset c = offset"
  by (simp add: scroll_def)

text \<open>
  C9. The loop body after \<^verbatim>\<open>getch\<close> has two results, \<open>Running\<close> and \<open>Quit\<close>. A quit key
  (\<^verbatim>\<open>q\<close>, \<^verbatim>\<open>Q\<close>) gives \<open>Quit\<close> and the loop exits without reading the keys that follow;
  every other key gives \<open>Running\<close> and the loop goes on with the new offset. With the
  offset in range, an up key moves one up or stays at 0, a down key moves one down or
  stays at \<open>n - 1\<close>, the page keys move by a page and are reset into range, and a key
  that is neither a quit key nor a navigation key leaves the offset as it is. \<open>Quit\<close>
  is reached by a quit key only, and a run ends as \<open>Exited\<close> only when a quit key was
  pressed.
\<close>

theorem event_loop_transitions:
  "(c = py_ord CHR ''q'' \<or> c = py_ord CHR ''Q'' \<longrightarrow>
      handle_key n page offset c = Quit \<and>
      (render concerts artists LIST_WIN INFO_WIN offset LIST_MID SUB_X = Inr f \<longrightarrow>
         main_loop concerts artists LIST_WIN INFO_WIN SUB_Y SUB_X LIST_MID offset (c # cs) = ([(offset, Inr f)], Exited))) \<and>
   (c \<noteq> py_ord CHR ''q'' \<and> c \<noteq> py_ord CHR ''Q'' \<longrightarrow>
      handle_key n page offset c = Running (safety_reset n (scroll n page offset c)) \<and>
      (render concerts artists LIST_WIN INFO_WIN offset LIST_MID SUB_X = Inr f \<longrightarrow>
         main_loop concerts artists LIST_WIN INFO_WIN SUB_Y SUB_X LIST_MID offset (c # cs) =
           ((offset, Inr f) #
              fst (main_loop concerts artists LIST_WIN INFO_WIN SUB_Y SUB_X LIST_MID
                     (safety_reset (int (length artists))
                        (scroll (int (length artists)) (SUB_Y - 2 * 2) offset c)) cs),
            snd (main_loop concerts artists LIST_WIN INFO_WIN SUB_Y SUB_X LIST_MID
                     (safety_reset (int (length artists))
                        (scroll (int (length artists)) (SUB_Y - 2 * 2) offset c)) cs)))) \<and>
   (0 \<le> offset \<and> offset < n \<longrightarrow>
      (c = KEY_UP \<or> c = py_ord CHR ''k'' \<longrightarrow>
         handle_key n page offset c = Running (if 0 < offset then offset - 1 else 0)) \<and>
      (c = KEY_DOWN \<or> c = py_ord CHR ''j'' \<longrightarrow>
         handle_key n page offset c = Running (if offset + 1 < n then offset + 1 else n - 1)) \<and>
      (c = py_ord CHR ''K'' \<longrightarrow>
         handle_key n page offset c =
           Running (if 0 < offset then safety_reset n (offset - page) else 0)) \<and>
      (c = py_ord CHR ''J'' \<longrightarrow>
         handle_key n page offset c = Running (safety_reset n (offset + page))) \<and>
      (c \<notin> {py_ord CHR ''q'', py_ord CHR ''Q'', KEY_UP, py_ord CHR ''k'', KEY_DOWN,
              py_ord CHR ''j'', py_ord CHR ''K'', py_ord CHR ''J''} \<longrightarrow>
         handle_key n page offset c = Running offset)) \<and>
   (handle_key n page offset c = Quit \<longleftrightarrow> c = py_ord CHR ''q'' \<or> c = py_ord CHR ''Q'') \<and>
   (snd (main_loop concerts artists LIST_WIN INFO_WIN SUB_Y SUB_X LIST_MID offset keys) = Exited \<longrightarrow>
      (\<exists>q\<in>set keys. q = py_ord CHR ''q'' \<or> q = py_ord CHR ''Q''))"
proof -
  have quit: "handle_key n page offset c = Quit \<longleftrightarrow> c = py_ord CHR ''q'' \<or> c = py_ord CHR ''Q''"
    by (simp add: handle_key_def)
  have A: "c = py_ord CHR ''q'' \<or> c = py_ord CHR ''Q'' \<longrightarrow>
      handle_key n page offset c = Quit \<and>
      (render concerts artists LIST_WIN INFO_WIN offset LIST_MID SUB_X = Inr f \<longrightarrow>
         main_loop concerts artists LIST_WIN INFO_WIN SUB_Y SUB_X LIST_MID offset (c # cs) = ([(offset, Inr f)], Exited))"
    by (auto simp: handle_key_def)
  have B: "c \<noteq> py_ord CHR ''q'' \<and> c \<noteq> py_ord CHR ''Q'' \<longrightarrow>
      handle_key n page offset c = Running (safety_reset n (scroll n page offset c)) \<and>
      (render concerts artists LIST_WIN INFO_WIN offset LIST_MID SUB_X = Inr f \<longrightarrow>
         main_loop concerts artists LIST_WIN INFO_WIN SUB_Y SUB_X LIST_MID offset (c # cs) =
           ((offset, Inr f) #
              fst (main_loop concerts artists LIST_WIN INFO_WIN SUB_Y SUB_X LIST_MID
                     (safety_reset (int (length artists))
                        (scroll (int (length artists)) (SUB_Y - 2 * 2) offset c)) cs),
            snd (main_loop concerts artists LIST_WIN INFO_WIN SUB_Y SUB_X LIST_MID
                     (safety_reset (int (length artists))
                        (scroll (int (length artists)) (SUB_Y - 2 * 2) offset c)) cs)))"
    by (simp add: handle_key_not_quit Let_def)
  have C: "0 \<le> offset \<and> offset < n \<longrightarrow>
      (c = KEY_UP \<or> c = py_ord CHR ''k'' \<longrightarrow>
         handle_key n page offset c = Running (if 0 < offset then offset - 1 else 0)) \<and>
      (c = KEY_DOWN \<or> c = py_ord CHR ''j'' \<longrightarrow>
         handle_key n page offset c = Running (if offset + 1 < n then offset + 1 else n - 1)) \<and>
      (c = py_ord CHR ''K'' \<longrightarrow>
         handle_key n page offset c =
           Running (if 0 < offset then safety_reset n (offset - page) else 0)) \<and>
      (c = py_ord CHR ''J'' \<longrightarrow>
         handle_key n page offset c = Running (safety_reset n (offset + page))) \<and>
      (c \<notin> {py_ord CHR ''q'', py_ord CHR ''Q'', KEY_UP, py_ord CHR ''k'', KEY_DOWN,
              py_ord CHR ''j'', py_ord CHR ''K'', py_ord CHR ''J''} \<longrightarrow>
         handle_key n page offset c = Running offset)"
  proof (intro impI conjI)
    assume r: "0 \<le> offset \<and> offset < n" and c: "c = KEY_UP \<or> c = py_ord CHR ''k''"
    show "handle_key n page offset c = Running (if 0 < offset then offset - 1 else 0)"
      using up_keys_not_quit [OF c] up_in_range [OF c, of offset n page] r
      by (simp add: handle_key_not_quit)
  next
    assume r: "0 \<le> offset \<and> offset < n" and c: "c = KEY_DOWN \<or> c = py_ord CHR ''j''"
    show "handle_key n page offset c = Running (if offset + 1 < n then offset + 1 else n - 1)"
      using down_keys_not_quit [OF c] down_in_range [OF c, of offset n page] r
      by (simp add: handle_key_not_quit)
  next
    assume r: "0 \<le> offset \<and> offset < n" and c: "c = py_ord CHR ''K''"
    show "handle_key n page offset c =
           Running (if 0 < offset then safety_reset n (offset - page) else 0)"
      using r c by (simp add: handle_key_def scroll_def safety_reset_def py_ord_def KEY_UP_def KEY_DOWN_def)
  next
    assume r: "0 \<le> offset \<and> offset < n" and c: "c = py_ord CHR ''J''"
    show "handle_key n page offset c = Running (safety_reset n (offset + page))"
      using r c by (simp add: handle_key_def scroll_def py_ord_def KEY_UP_def KEY_DOWN_def)
  next
    assume r: "0 \<le> offset \<and> offset < n"
      and c: "c \<notin> {py_ord CHR ''q'', py_ord CHR ''Q'', KEY_UP, py_ord CHR ''k'', KEY_DOWN,
              py_ord CHR ''j'', py_ord CHR ''K'', py_ord CHR ''J''}"
    then have "scroll n page offset c = offset"
      by (simp add: scroll_other)
    then show "handle_key n page offset c = Running offset"
      using r c by (simp add: handle_key_not_quit safety_reset_id)
  qed
  have D: "snd (main_loop concerts artists LIST_WIN INFO_WIN SUB_Y SUB_X LIST_MID offset keys) = Exited \<longrightarrow>
      (\<exists>q\<in>set keys. q = py_ord CHR ''q'' \<or> q = py_ord CHR ''Q'')"
    by (rule impI) (rule main_loop_exit_needs_quit)
  show ?thesis
    apply (rule conjI [OF A])
    apply (rule conjI [OF B])
    apply (rule conjI [OF C])
    apply (rule conjI [OF quit])
    apply (rule D)
    done
qed


theorem event_loop_transitions_witness:
  "handle_key 2 16 1 (py_ord CHR ''q'') = Quit \<and>
   render [(''A'', []), (''B'', [])] [''A'', ''B''] (ascii_window 20 36) (ascii_window 20 36) 0 10 36 =
     Inr ([Clear, Border, Addstr 10 5 ''A'' A_STANDOUT, Addstr 11 1 ''B'' A_NORMAL, Refresh],
          [Clear, Border, Addstr 2 2 ''A'' A_UNDERLINE, Refresh]) \<and>
   main_loop [(''A'', []), (''B'', [])] [''A'', ''B''] (ascii_window 20 36) (ascii_window 20 36) 20 36 10 0 [py_ord CHR ''q'', 258] =
     ([(0, Inr ([Clear, Border, Addstr 10 5 ''A'' A_STANDOUT, Addstr 11 1 ''B'' A_NORMAL, Refresh],
                [Clear, Border, Addstr 2 2 ''A'' A_UNDERLINE, Refresh]))], Exited) \<and>
   handle_key 2 16 1 KEY_UP = Running 0 \<and>
   handle_key 2 16 1 KEY_DOWN = Running 1 \<and>
   handle_key 2 16 1 (py_ord CHR ''x'') = Running 1"
proof -
  have r: "render [(''A'', []), (''B'', [])] [''A'', ''B''] (ascii_window 20 36) (ascii_window 20 36) 0 10 36 =
     Inr ([Clear, Border, Addstr 10 5 ''A'' A_STANDOUT, Addstr 11 1 ''B'' A_NORMAL, Refresh],
          [Clear, Border, Addstr 2 2 ''A'' A_UNDERLINE, Refresh])"
    by code_simp
  have q: "handle_key 2 16 1 (py_ord CHR ''q'') = Quit"
    using event_loop_transitions [of "py_ord CHR ''q''" 2 16 1] by simp
  have m: "main_loop [(''A'', []), (''B'', [])] [''A'', ''B''] (ascii_window 20 36) (ascii_window 20 36) 20 36 10 0 [py_ord CHR ''q'', 258] =
     ([(0, Inr ([Clear, Border, Addstr 10 5 ''A'' A_STANDOUT, Addstr 11 1 ''B'' A_NORMAL, Refresh],
                [Clear, Border, Addstr 2 2 ''A'' A_UNDERLINE, Refresh]))], Exited)"
    using event_loop_transitions [of "py_ord CHR ''q''" 2 16 0 "[(''A'', []), (''B'', [])]"
        "[''A'', ''B'']" "ascii_window 20 36" "ascii_window 20 36" 10 36
        "([Clear, Border, Addstr 10 5 ''A'' A_STANDOUT, Addstr 11 1 ''B'' A_NORMAL, Refresh],
          [Clear, Border, Addstr 2 2 ''A'' A_UNDERLINE, Refresh])" 20 "[258]"] r
    by blast
  have u: "handle_key 2 16 1 KEY_UP = Running 0"
    using event_loop_transitions [of KEY_UP 2 16 1] by simp
  have d: "handle_key 2 16 1 KEY_DOWN = Running 1"
    using event_loop_transitions [of KEY_DOWN 2 16 1] by simp
  have x: "handle_key 2 16 1 (py_ord CHR ''x'') = Running 1"
    using event_loop_transitions [of "py_ord CHR ''x''" 2 16 1]
    by (simp add: py_ord_def KEY_UP_def KEY_DOWN_def safety_reset_def scroll_def)
  show ?thesis using q r m u d x by blast
qed

section \<open>The empty catalog\<close>

lemma concert_loop_no_artist:
  "\<forall>l\<in>set ls. artist_re l = None \<Longrightarrow> concert_loop acc ls = Inr acc"
  by (induction ls arbitrary: acc) auto

lemma render_empty: "render concerts [] LIST_WIN INFO_WIN 0 LIST_MID SUB_X = Inl IndexError"
  by (simp add: render_def populateListWin_def ebind_def py_index_def)

lemma main_loop_empty:
  "main_loop concerts [] LIST_WIN INFO_WIN SUB_Y SUB_X LIST_MID 0 keys =
     ([(0, Inl IndexError)], Crashed IndexError)"
  by (cases keys) (simp_all add: render_empty)

text \<open>
  C2. When no surviving line matches the artist pattern, \<^verbatim>\<open>concertList\<close> returns the empty
  catalog without raising. \<^verbatim>\<open>main\<close> then has an empty artist list, and its first rendering
  reads \<^verbatim>\<open>names[offset]\<close> with offset 0 in \<^verbatim>\<open>populateListWin\<close>: the run ends with an
  IndexError before any key is read, whatever the screen, its windows and the keys.
\<close>

theorem empty_catalog_crash:
  assumes "\<forall>l\<in>set site_data. contains artist_tag l \<longrightarrow> artist_re l = None"
  shows "concertList site_data = Inr [] \<and>
         main site_data scr keys = ([(0, Inl IndexError)], Crashed IndexError)"
proof -
  have "\<forall>l\<in>set (filter (contains artist_tag) site_data). artist_re l = None"
    using assms by simp
  then have c: "concertList site_data = Inr []"
    unfolding concertList_def by (rule concert_loop_no_artist)
  show ?thesis
    by (simp add: c main_def Let_def main_loop_empty)
qed

theorem empty_catalog_crash_witness:
  "concertList [''<html>'', ''<td >none</td>''] = Inr [] \<and>
   main [''<html>'', ''<td >none</td>''] (ascii_screen 24 80) [258, 113] = ([(0, Inl IndexError)], Crashed IndexError)"
proof -
  have a: "artist_re ''<td >none</td>'' = None"
    by code_simp
  have b: "\<not> contains artist_tag ''<html>''"
    by code_simp
  have "\<forall>l\<in>set [''<html>'', ''<td >none</td>'']. contains artist_tag l \<longrightarrow> artist_re l = None"
    using a b by simp
  then show ?thesis
    by (rule empty_catalog_crash)
qed

section \<open>Properties of the detail renderer\<close>



















section \<open>Properties of the catalog\<close>

lemma concerts_of_dict_add:
  "concerts_of (dict_add acc nm c) name =
     (if name = nm then concerts_of acc nm @ [c] else concerts_of acc name)"
  by (simp add: concerts_of_def dict_add_def AList.update_conv' split: option.splits)

lemma distinct_dict_add:
  "distinct (map fst acc) \<Longrightarrow> distinct (map fst (dict_add acc nm c))"
  by (simp add: dict_add_def AList.distinct_update split: option.splits)

lemma nonempty_dict_add:
  "\<forall>k v. map_of acc k = Some v \<longrightarrow> v \<noteq> [] \<Longrightarrow>
   \<forall>k v. map_of (dict_add acc nm c) k = Some v \<longrightarrow> v \<noteq> []"
  by (auto simp: dict_add_def AList.update_conv' split: option.splits if_splits)

lemma concert_loop_distinct:
  "concert_loop acc ls = Inr res \<Longrightarrow> distinct (map fst acc) \<Longrightarrow> distinct (map fst res)"
proof (induction ls arbitrary: acc)
  case Nil
  then show ?case by simp
next
  case (Cons l ls)
  then show ?case
    by (auto split: option.splits sum.splits dest: distinct_dict_add)
qed

lemma concert_loop_nonempty:
  "concert_loop acc ls = Inr res \<Longrightarrow> \<forall>k v. map_of acc k = Some v \<longrightarrow> v \<noteq> [] \<Longrightarrow>
   \<forall>k v. map_of res k = Some v \<longrightarrow> v \<noteq> []"
proof (induction ls arbitrary: acc)
  case Nil
  then show ?case by simp
next
  case (Cons l ls)
  show ?case
  proof (cases "artist_re l")
    case None
    with Cons show ?thesis by simp
  next
    case (Some nm)
    with Cons.prems(1) obtain c where c: "parse_concert l = Inr c"
      and r: "concert_loop (dict_add acc nm c) ls = Inr res"
      by (auto split: sum.splits)
    show ?thesis
      using Cons.IH [OF r nonempty_dict_add [OF Cons.prems(2)]] .
  qed
qed

lemma concert_loop_appends:
  "concert_loop acc ls = Inr res \<Longrightarrow>
   \<exists>cs. list_all2 (\<lambda>l c. parse_concert l = Inr c) [l\<leftarrow>ls. artist_re l = Some name] cs \<and>
        concerts_of res name = concerts_of acc name @ cs"
proof (induction ls arbitrary: acc)
  case Nil
  then show ?case by simp
next
  case (Cons l ls)
  show ?case
  proof (cases "artist_re l")
    case None
    with Cons show ?thesis by simp
  next
    case (Some nm)
    with Cons.prems obtain c where c: "parse_concert l = Inr c"
      and r: "concert_loop (dict_add acc nm c) ls = Inr res"
      by (auto split: sum.splits)
    from Cons.IH [OF r] obtain cs where
      cs: "list_all2 (\<lambda>l c. parse_concert l = Inr c) [l\<leftarrow>ls. artist_re l = Some name] cs"
      and eq: "concerts_of res name = concerts_of (dict_add acc nm c) name @ cs"
      by blast
    show ?thesis
    proof (cases "name = nm")
      case True
      have "list_all2 (\<lambda>l c. parse_concert l = Inr c) [l\<leftarrow>l # ls. artist_re l = Some name] (c # cs)"
        using cs c Some True by simp
      moreover have "concerts_of res name = concerts_of acc name @ (c # cs)"
        using eq True by (simp add: concerts_of_dict_add)
      ultimately show ?thesis by blast
    next
      case False
      have "list_all2 (\<lambda>l c. parse_concert l = Inr c) [l\<leftarrow>l # ls. artist_re l = Some name] cs"
        using cs Some False by simp
      moreover have "concerts_of res name = concerts_of acc name @ cs"
        using eq False by (simp add: concerts_of_dict_add)
      ultimately show ?thesis by blast
    qed
  qed
qed

lemma concert_loop_succeeds_iff:
  "(\<exists>res. concert_loop acc ls = Inr res) \<longleftrightarrow>
   (\<forall>l\<in>set ls. artist_re l \<noteq> None \<longrightarrow> (\<exists>c. parse_concert l = Inr c))"
proof (induction ls arbitrary: acc)
  case Nil
  then show ?case by simp
next
  case (Cons l ls)
  show ?case
  proof (cases "artist_re l")
    case None
    then show ?thesis using Cons.IH [of acc] by simp
  next
    case (Some nm)
    show ?thesis
    proof (cases "parse_concert l")
      case (Inl e)
      with Some show ?thesis by auto
    next
      case (Inr c)
      with Some show ?thesis using Cons.IH [of "dict_add acc nm c"] by simp
    qed
  qed
qed

text \<open>
  C7. When \<^verbatim>\<open>concertList\<close> returns a catalog, its keys are distinct and, for every name, the
  sequence stored under the name has exactly one concert for each surviving line whose
  artist pattern matches that name, in the order of the lines: the concert parsed from
  that line. Lines that the artist pattern does not match contribute nothing, equal
  concerts are kept, and nothing is sorted; a name without such a line is no key.
  \<^verbatim>\<open>concertList\<close> returns a catalog exactly when every surviving line that the artist
  pattern matches also has the four other fields and a date with three components;
  otherwise it raises.
\<close>

theorem concertList_contents:
  "(concertList site_data = Inr artists \<longrightarrow>
      distinct (map fst artists) \<and>
      (\<exists>cs. list_all2 (\<lambda>l c. parse_concert l = Inr c)
               [l\<leftarrow>filter (contains artist_tag) site_data. artist_re l = Some name] cs \<and>
            map_of artists name = (if cs = [] then None else Some cs))) \<and>
   ((\<exists>res. concertList site_data = Inr res) \<longleftrightarrow>
      (\<forall>l\<in>set (filter (contains artist_tag) site_data).
          artist_re l \<noteq> None \<longrightarrow> (\<exists>c. parse_concert l = Inr c)))"
proof -
  have A: "distinct (map fst artists) \<and>
      (\<exists>cs. list_all2 (\<lambda>l c. parse_concert l = Inr c)
               [l\<leftarrow>filter (contains artist_tag) site_data. artist_re l = Some name] cs \<and>
            map_of artists name = (if cs = [] then None else Some cs))"
    if ok: "concertList site_data = Inr artists"
  proof -
    from ok have loop: "concert_loop [] (filter (contains artist_tag) site_data) = Inr artists"
      by (simp add: concertList_def)
    have d: "distinct (map fst artists)"
      using concert_loop_distinct [OF loop] by simp
    have ne: "\<forall>k v. map_of artists k = Some v \<longrightarrow> v \<noteq> []"
      using concert_loop_nonempty [OF loop] by simp
    from concert_loop_appends [OF loop, of name] obtain cs where
      cs: "list_all2 (\<lambda>l c. parse_concert l = Inr c)
               [l\<leftarrow>filter (contains artist_tag) site_data. artist_re l = Some name] cs"
      and eq: "concerts_of artists name = cs"
      by (auto simp: concerts_of_def)
    have "map_of artists name = (if cs = [] then None else Some cs)"
      using eq ne by (cases "map_of artists name") (auto simp: concerts_of_def)
    with d cs show ?thesis by blast
  qed
  have B: "(\<exists>res. concertList site_data = Inr res) \<longleftrightarrow>
      (\<forall>l\<in>set (filter (contains artist_tag) site_data).
          artist_re l \<noteq> None \<longrightarrow> (\<exists>c. parse_concert l = Inr c))"
    unfolding concertList_def by (rule concert_loop_succeeds_iff)
  show ?thesis
    apply (rule conjI)
     apply (rule impI)
     apply (erule A)
    apply (rule B)
    done
qed


theorem concertList_contents_witness:
  "concertList
     [''<td ><b>A</b>-1\">Mon<0\">01-15-2024<2\">Hall<3\">$10<'',
      ''<p>no cell</p>'',
      ''<td ><b>B</b>-1\">Sun<0\">12-31-2023<2\">Arena<3\">Free<'',
      ''<td ><b>A</b>-1\">Mon<0\">01-15-2024<2\">Hall<3\">$10<''] =
   Inr [(''A'', [\<lparr>venue = ''Hall'', year = ''2024'', month = ''01'', date = ''15'', day = ''Mon'', cost = ''$10''\<rparr>,
                 \<lparr>venue = ''Hall'', year = ''2024'', month = ''01'', date = ''15'', day = ''Mon'', cost = ''$10''\<rparr>]),
        (''B'', [\<lparr>venue = ''Arena'', year = ''2023'', month = ''12'', date = ''31'', day = ''Sun'', cost = ''Free''\<rparr>])] \<and>
   (\<exists>cs. list_all2 (\<lambda>l c. parse_concert l = Inr c)
      [l\<leftarrow>filter (contains artist_tag)
           [''<td ><b>A</b>-1\">Mon<0\">01-15-2024<2\">Hall<3\">$10<'',
            ''<p>no cell</p>'',
            ''<td ><b>B</b>-1\">Sun<0\">12-31-2023<2\">Arena<3\">Free<'',
            ''<td ><b>A</b>-1\">Mon<0\">01-15-2024<2\">Hall<3\">$10<'']. artist_re l = Some ''A''] cs \<and>
      map_of [(''A'', [\<lparr>venue = ''Hall'', year = ''2024'', month = ''01'', date = ''15'', day = ''Mon'', cost = ''$10''\<rparr>,
                 \<lparr>venue = ''Hall'', year = ''2024'', month = ''01'', date = ''15'', day = ''Mon'', cost = ''$10''\<rparr>]),
        (''B'', [\<lparr>venue = ''Arena'', year = ''2023'', month = ''12'', date = ''31'', day = ''Sun'', cost = ''Free''\<rparr>])] ''A''
        = (if cs = [] then None else Some cs))"
proof -
  have ok: "concertList
     [''<td ><b>A</b>-1\">Mon<0\">01-15-2024<2\">Hall<3\">$10<'',
      ''<p>no cell</p>'',
      ''<td ><b>B</b>-1\">Sun<0\">12-31-2023<2\">Arena<3\">Free<'',
      ''<td ><b>A</b>-1\">Mon<0\">01-15-2024<2\">Hall<3\">$10<''] =
   Inr [(''A'', [\<lparr>venue = ''Hall'', year = ''2024'', month = ''01'', date = ''15'', day = ''Mon'', cost = ''$10''\<rparr>,
                 \<lparr>venue = ''Hall'', year = ''2024'', month = ''01'', date = ''15'', day = ''Mon'', cost = ''$10''\<rparr>]),
        (''B'', [\<lparr>venue = ''Arena'', year = ''2023'', month = ''12'', date = ''31'', day = ''Sun'', cost = ''Free''\<rparr>])]"
    by code_simp
  show ?thesis
    using ok concertList_contents [of
     "[''<td ><b>A</b>-1\">Mon<0\">01-15-2024<2\">Hall<3\">$10<'',
      ''<p>no cell</p>'',
      ''<td ><b>B</b>-1\">Sun<0\">12-31-2023<2\">Arena<3\">Free<'',
      ''<td ><b>A</b>-1\">Mon<0\">01-15-2024<2\">Hall<3\">$10<'']"
     "[(''A'', [\<lparr>venue = ''Hall'', year = ''2024'', month = ''01'', date = ''15'', day = ''Mon'', cost = ''$10''\<rparr>,
                 \<lparr>venue = ''Hall'', year = ''2024'', month = ''01'', date = ''15'', day = ''Mon'', cost = ''$10''\<rparr>]),
        (''B'', [\<lparr>venue = ''Arena'', year = ''2023'', month = ''12'', date = ''31'', day = ''Sun'', cost = ''Free''\<rparr>])]"
     "''A''"]
    by blast
qed

section \<open>Properties of the emitted concerts\<close>

lemma re_search_body:
  "re_search lit body seen rest = Some m \<Longrightarrow> \<exists>s. body s = Some m"
proof (induction rest arbitrary: seen)
  case Nil
  then show ?case by (auto split: if_splits)
next
  case (Cons c cs)
  then show ?case by (auto split: if_splits option.splits)
qed

lemma day_re_shape: "day_re l = Some dy \<Longrightarrow> length dy = 3 \<and> list_all is_alpha dy"
proof -
  assume "day_re l = Some dy"
  then obtain s where "day_body s = Some dy"
    unfolding day_re_def using re_search_body by blast
  then show ?thesis
    by (auto simp: day_body_def split: if_splits)
qed

lemma parse_concert_fields:
  "parse_concert l = Inr c \<Longrightarrow>
   \<exists>dy dt vn cs. day_re l = Some dy \<and> date_re l = Some dt \<and> venue_re l = Some vn \<and>
      cost_re l = Some cs \<and> formatConcert dy dt vn cs = Inr c"
  by (auto simp: parse_concert_def ebind_def group_def split: option.splits sum.splits)

lemma digit_not_space: "is_digit c \<Longrightarrow> \<not> is_space c"
  by (auto simp: is_digit_def is_space_def)

lemma digit_not_sign: "is_digit c \<Longrightarrow> c \<noteq> CHR ''-'' \<and> c \<noteq> CHR ''+''"
  by (auto simp: is_digit_def)

lemma digit_val_range: "is_digit c \<Longrightarrow> 0 \<le> digit_val c \<and> digit_val c \<le> 9"
  by (auto simp: is_digit_def digit_val_def)

lemma py_int_two_digits:
  "is_digit a \<Longrightarrow> is_digit b \<Longrightarrow> py_int (PyStr [a, b]) = Inr (10 * digit_val a + digit_val b)"
  by (simp add: py_int_def py_int_str_def digit_not_space digit_not_sign decimal_def)

lemma length2: "length xs = 2 \<Longrightarrow> \<exists>a b. xs = [a, b]"
  by (auto simp: length_Suc_conv eval_nat_numeral)

lemma date_form_fields:
  assumes "date_form dt" "formatConcert dy dt vn cs = Inr c"
  shows "length (date c) = 2 \<and> list_all is_digit (date c) \<and>
         length (year c) = 4 \<and> list_all is_digit (year c) \<and>
         length (month c) = 2 \<and> list_all is_digit (month c) \<and>
         venue c = vn \<and> day c = dy \<and> cost c = cs"
proof -
  have "formatConcert dy dt vn cs =
        Inr \<lparr>venue = vn, year = drop 6 dt, month = take 2 dt, date = take 2 (drop 3 dt),
             day = dy, cost = cs\<rparr>"
    using assms(1) by (simp add: formatConcert_def split_on_date_form ebind_def py_index_def)
  with assms(2) have c: "c = \<lparr>venue = vn, year = drop 6 dt, month = take 2 dt,
      date = take 2 (drop 3 dt), day = dy, cost = cs\<rparr>"
    by simp
  show ?thesis
    using assms(1) unfolding c by (simp add: date_form_def)
qed

lemma month_normalizes:
  assumes "length s = 2" "list_all is_digit s"
  shows "\<exists>m. py_int (PyStr s) = Inr m \<and> 0 \<le> m \<and> m \<le> 99 \<and>
             1 \<le> (m - 1) mod 12 + 1 \<and> (m - 1) mod 12 + 1 \<le> 12 \<and>
             getMonth (PyStr s) = Inr (months ! nat ((m - 1) mod 12)) \<and>
             months ! nat ((m - 1) mod 12) \<in> set months"
proof -
  from assms(1) obtain a b where s: "s = [a, b]" using length2 by blast
  with assms(2) have d: "is_digit a" "is_digit b" by simp_all
  let ?m = "10 * digit_val a + digit_val b"
  have p: "py_int (PyStr s) = Inr ?m"
    unfolding s using d by (rule py_int_two_digits)
  have r: "0 \<le> ?m \<and> ?m \<le> 99"
    using digit_val_range [OF d(1)] digit_val_range [OF d(2)] by simp
  have "nat ((?m - 1) mod 12) < length months"
    by (simp add: length_months)
  then have mem: "months ! nat ((?m - 1) mod 12) \<in> set months"
    by (rule nth_mem)
  have n: "1 \<le> (?m - 1) mod 12 + 1 \<and> (?m - 1) mod 12 + 1 \<le> 12"
    by simp
  show ?thesis
    using p r n mem getMonth_via_py_int [OF p] by blast
qed

lemma list_all2_right_mem:
  "list_all2 P xs ys \<Longrightarrow> y \<in> set ys \<Longrightarrow> \<exists>x\<in>set xs. P x y"
  by (induction rule: list_all2_induct) auto

lemma catalog_entry_from_line:
  assumes loop: "concert_loop [] ls = Inr artists"
    and mem: "(name, cs) \<in> set artists" and c: "c \<in> set cs"
  shows "\<exists>l\<in>set ls. artist_re l = Some name \<and> parse_concert l = Inr c"
proof -
  have d: "distinct (map fst artists)"
    using concert_loop_distinct [OF loop] by simp
  from mem d have "map_of artists name = Some cs" by simp
  then have co: "concerts_of artists name = cs" by (simp add: concerts_of_def)
  from concert_loop_appends [OF loop, of name] co have
    "list_all2 (\<lambda>l c. parse_concert l = Inr c) [l\<leftarrow>ls. artist_re l = Some name] cs"
    by (auto simp: concerts_of_def)
  from list_all2_right_mem [OF this c]
  obtain l where "l \<in> set [l\<leftarrow>ls. artist_re l = Some name]" "parse_concert l = Inr c"
    by blast
  then show ?thesis by auto
qed

text \<open>
  C4 as stated fails. The venue pattern is \<^verbatim>\<open>[^<]*\<close>, as the cost pattern is, so an empty
  venue cell gives a concert with the empty venue. And the date pattern accepts ten
  characters of digits and \<^verbatim>\<open>-\<close> in any arrangement: the token \<^verbatim>\<open>1--2024---\<close> gives a
  concert whose day of the month is empty.
\<close>

theorem emitted_concert_counterexample:
  "concertList [''<td ><b>A</b>-1\">Mon<0\">01-15-2024<2\"><3\">$5<''] =
     Inr [(''A'', [\<lparr>venue = [], year = ''2024'', month = ''01'', date = ''15'', day = ''Mon'',
                     cost = ''$5''\<rparr>])] \<and>
   concertList [''<td ><b>A</b>-1\">Mon<0\">1--2024---<2\">Hall<3\">$5<''] =
     Inr [(''A'', [\<lparr>venue = ''Hall'', year = ''2024'', month = ''1'', date = [], day = ''Mon'',
                     cost = ''$5''\<rparr>])]"
  by code_simp

text \<open>
  C4, amended. When \<^verbatim>\<open>concertList\<close> returns a catalog and every date token of a surviving
  line that the artist pattern matches has the form \<^verbatim>\<open>NN-NN-NNNN\<close>, every concert of the
  catalog has a weekday of three letters, a day of the month of two digits, a year of four
  digits and a month of two digits; \<^verbatim>\<open>int\<close> reads the month as a number from 0 to 99 and
  \<^verbatim>\<open>getMonth\<close> normalizes it to one of the twelve entries of the table. Nothing is said
  about the venue and the cost: both patterns accept the empty text.
\<close>

theorem emitted_concert_fields:
  assumes ok: "concertList site_data = Inr artists"
    and dates: "\<forall>l\<in>set site_data. contains artist_tag l \<longrightarrow> artist_re l \<noteq> None \<longrightarrow>
                 (\<forall>dt. date_re l = Some dt \<longrightarrow> date_form dt)"
    and mem: "(name, cs) \<in> set artists" and c: "c \<in> set cs"
  shows "length (day c) = 3 \<and> list_all is_alpha (day c) \<and>
         length (date c) = 2 \<and> list_all is_digit (date c) \<and>
         length (year c) = 4 \<and> list_all is_digit (year c) \<and>
         length (month c) = 2 \<and> list_all is_digit (month c) \<and>
         (\<exists>m. py_int (PyStr (month c)) = Inr m \<and> 0 \<le> m \<and> m \<le> 99 \<and>
              1 \<le> (m - 1) mod 12 + 1 \<and> (m - 1) mod 12 + 1 \<le> 12 \<and>
              getMonth (PyStr (month c)) = Inr (months ! nat ((m - 1) mod 12)) \<and>
              months ! nat ((m - 1) mod 12) \<in> set months)"
proof -
  from ok have loop: "concert_loop [] (filter (contains artist_tag) site_data) = Inr artists"
    by (simp add: concertList_def)
  from catalog_entry_from_line [OF loop mem c] obtain l where
    l: "l \<in> set site_data" "contains artist_tag l" "artist_re l = Some name"
    and p: "parse_concert l = Inr c"
    by auto
  from parse_concert_fields [OF p] obtain dy dt vn co where
    dy: "day_re l = Some dy" and dt: "date_re l = Some dt"
    and f: "formatConcert dy dt vn co = Inr c"
    by blast
  have df: "date_form dt" using dates l dt by auto
  have fields: "length (date c) = 2 \<and> list_all is_digit (date c) \<and>
         length (year c) = 4 \<and> list_all is_digit (year c) \<and>
         length (month c) = 2 \<and> list_all is_digit (month c) \<and>
         venue c = vn \<and> day c = dy \<and> cost c = co"
    using df f by (rule date_form_fields)
  have dsh: "length (day c) = 3 \<and> list_all is_alpha (day c)"
    using day_re_shape [OF dy] fields by simp
  have mn: "\<exists>m. py_int (PyStr (month c)) = Inr m \<and> 0 \<le> m \<and> m \<le> 99 \<and>
              1 \<le> (m - 1) mod 12 + 1 \<and> (m - 1) mod 12 + 1 \<le> 12 \<and>
              getMonth (PyStr (month c)) = Inr (months ! nat ((m - 1) mod 12)) \<and>
              months ! nat ((m - 1) mod 12) \<in> set months"
    using fields by (intro month_normalizes) simp_all
  from dsh fields mn show ?thesis by blast
qed

theorem emitted_concert_fields_witness:
  "concertList [''<td ><b>A</b>-1\">Mon<0\">01-15-2024<2\">Hall<3\"><''] =
     Inr [(''A'', [\<lparr>venue = ''Hall'', year = ''2024'', month = ''01'', date = ''15'', day = ''Mon'',
                     cost = []\<rparr>])] \<and>
   date_re ''<td ><b>A</b>-1\">Mon<0\">01-15-2024<2\">Hall<3\"><'' = Some ''01-15-2024'' \<and>
   date_form ''01-15-2024'' \<and>
   getMonth (PyStr ''01'') = Inr ''January'' \<and>
   (\<exists>m. py_int (PyStr ''01'') = Inr m \<and> 0 \<le> m \<and> m \<le> 99 \<and>
        1 \<le> (m - 1) mod 12 + 1 \<and> (m - 1) mod 12 + 1 \<le> 12 \<and>
        getMonth (PyStr ''01'') = Inr (months ! nat ((m - 1) mod 12)) \<and>
        months ! nat ((m - 1) mod 12) \<in> set months)"
proof -
  let ?l = "''<td ><b>A</b>-1\">Mon<0\">01-15-2024<2\">Hall<3\"><''"
  let ?c = "\<lparr>venue = ''Hall'', year = ''2024'', month = ''01'', date = ''15'', day = ''Mon'',
             cost = []\<rparr>"
  have ok: "concertList [?l] = Inr [(''A'', [?c])]"
    by code_simp
  have dr: "date_re ?l = Some ''01-15-2024''"
    by code_simp
  have df: "date_form ''01-15-2024''"
    by (simp add: date_form_def is_digit_def)
  have dates: "\<forall>l\<in>set [?l]. contains artist_tag l \<longrightarrow> artist_re l \<noteq> None \<longrightarrow>
                 (\<forall>dt. date_re l = Some dt \<longrightarrow> date_form dt)"
    using dr df by simp
  have mem: "(''A'', [?c]) \<in> set [(''A'', [?c])]" by simp
  have cc: "?c \<in> set [?c]" by simp
  have a: "py_int (PyStr ''01'') = Inr 1"
    by (simp add: py_int_def py_int_str_def is_space_def is_digit_def decimal_def digit_val_def)
  have g: "getMonth (PyStr ''01'') = Inr ''January''"
    using getMonth_via_py_int [OF a] by (simp add: months_def)
  have th: "\<exists>m. py_int (PyStr ''01'') = Inr m \<and> 0 \<le> m \<and> m \<le> 99 \<and>
        1 \<le> (m - 1) mod 12 + 1 \<and> (m - 1) mod 12 + 1 \<le> 12 \<and>
        getMonth (PyStr ''01'') = Inr (months ! nat ((m - 1) mod 12)) \<and>
        months ! nat ((m - 1) mod 12) \<in> set months"
    using emitted_concert_fields [OF ok dates mem cc] by simp
  show ?thesis
    using ok dr df g th by blast
qed

end
